theory Spec2Isabelle
  imports Main
begin

section \<open>The ledger relations and the validator of data_validator.py\<close>

text \<open>
  The three dataframes are lists of rows in dataframe order. The columns are those the
  source reads: \<open>tx_df\<close> has \<open>id, block_id\<close>; \<open>in_df\<close> has \<open>id, tx_id, sig_id, out_id\<close>
  (\<open>row[1]\<close>, \<open>row[2]\<close>, \<open>row[3]\<close> in \<open>is_valid\<close>); \<open>out_df\<close> has \<open>id, tx_id, pk_id, value\<close>.
  The columns are int64 columns, as \<open>read_csv\<close> makes them: a row holds integers of the
  signed 64-bit range, and a sum that numpy or pandas takes over such values wraps around at
  64 bits (\<open>wrap64\<close>). The rows of \<open>inputs.values\<close> are read as the integers of the columns,
  which is what the source sees whenever every id and key is at most \<open>2^53\<close> in magnitude
  (\<open>exact_ids\<close>): a frame that mixes integer dtypes hands them over as float64.
\<close>

record tx_row =
  t_id :: int
  t_block_id :: int

record in_row =
  i_id :: int
  i_tx_id :: int
  i_sig_id :: int
  i_out_id :: int

record out_row =
  o_id :: int
  o_tx_id :: int
  o_pk_id :: int
  o_value :: int

text \<open>The exceptions the pass can raise: \<open>.iloc[0]\<close> and \<open>.index[0]\<close> on an empty
  selection raise IndexError, \<open>set.remove\<close> of a missing element raises KeyError.\<close>

datatype error = IndexError | KeyError

definition int64 :: "int \<Rightarrow> bool" where
  "int64 x \<longleftrightarrow> - 9223372036854775808 \<le> x \<and> x < 9223372036854775808"

text \<open>The result of a numpy.int64 addition: the sum modulo \<open>2^64\<close>, in the signed range.\<close>

definition wrap64 :: "int \<Rightarrow> int" where
  "wrap64 x = (x + 9223372036854775808) mod 18446744073709551616 - 9223372036854775808"

definition MINING_REWARD :: int where
  "MINING_REWARD = 5000000000"

text \<open>
  The set \<open>utxo\<close> and the six id lists are created once, in the class body, and every
  instance reaches the same objects through \<open>self\<close>: they are the record \<open>analytics\<close>.
  The dataframes are assigned in \<open>__init__\<close>; \<open>n_invalid\<close> is an int, so the first
  \<open>self.n_invalid += 1\<close> reads the class value 0 and binds an attribute of the instance.
\<close>

record analytics =
  utxo :: "int set"
  not_in_utxo :: "int list"
  neg_dest_pk :: "int list"
  invalid_pk :: "int list"
  neg_output :: "int list"
  not_enough_value :: "int list"
  invalid_coinbase :: "int list"

record validator = analytics +
  tx_df :: "tx_row list"
  in_df :: "in_row list"
  out_df :: "out_row list"
  n_invalid :: int

definition class_body :: analytics where
  "class_body = \<lparr>utxo = {}, not_in_utxo = [], neg_dest_pk = [], invalid_pk = [],
     neg_output = [], not_enough_value = [], invalid_coinbase = []\<rparr>"

definition DataValidator ::
  "analytics \<Rightarrow> tx_row list \<Rightarrow> in_row list \<Rightarrow> out_row list \<Rightarrow> validator" where
  "DataValidator cls txs ins outs =
     \<lparr>utxo = utxo cls, not_in_utxo = not_in_utxo cls, neg_dest_pk = neg_dest_pk cls,
      invalid_pk = invalid_pk cls, neg_output = neg_output cls,
      not_enough_value = not_enough_value cls, invalid_coinbase = invalid_coinbase cls,
      tx_df = txs, in_df = ins, out_df = outs, n_invalid = 0\<rparr>"

definition class_state :: "validator \<Rightarrow> analytics" where
  "class_state v =
     \<lparr>utxo = utxo v, not_in_utxo = not_in_utxo v, neg_dest_pk = neg_dest_pk v,
      invalid_pk = invalid_pk v, neg_output = neg_output v,
      not_enough_value = not_enough_value v, invalid_coinbase = invalid_coinbase v\<rparr>"

subsection \<open>is_valid\<close>

definition iloc0 :: "'a list \<Rightarrow> error + 'a" where
  "iloc0 xs = (case xs of [] \<Rightarrow> Inl IndexError | x # _ \<Rightarrow> Inr x)"

text \<open>The loop \<open>for row in inputs.values\<close>: the three checks on each input row, in row
  order, returning at the first that fails.\<close>

fun is_valid_rows :: "validator \<Rightarrow> int \<Rightarrow> in_row list \<Rightarrow> error + (bool \<times> validator)" where
  "is_valid_rows v tx [] = Inr (True, v)"
| "is_valid_rows v tx (row # rows) =
     (if i_out_id row \<notin> utxo v
      then Inr (False, v\<lparr>n_invalid := n_invalid v + 1, not_in_utxo := not_in_utxo v @ [tx]\<rparr>)
      else case iloc0 (map o_pk_id (filter (\<lambda>r. o_id r = i_out_id row) (out_df v))) of
             Inl e \<Rightarrow> Inl e
           | Inr pk \<Rightarrow>
               if i_sig_id row \<noteq> pk
               then Inr (False, v\<lparr>n_invalid := n_invalid v + 1, invalid_pk := invalid_pk v @ [tx]\<rparr>)
               else if list_ex (\<lambda>pk. pk \<le> 0 \<and> pk \<noteq> - 1)
                         (map o_pk_id (filter (\<lambda>r. o_tx_id r = i_tx_id row) (out_df v)))
               then Inr (False, v\<lparr>n_invalid := n_invalid v + 1, neg_dest_pk := neg_dest_pk v @ [tx]\<rparr>)
               else is_valid_rows v tx rows)"

text \<open>The loop \<open>for out_id in inputs['out_id']\<close> with its two accumulators; \<open>tot_input\<close>
  is a numpy.int64 from the first addition on, so every addition wraps.\<close>

fun tot_input_loop ::
  "validator \<Rightarrow> int list \<Rightarrow> int \<Rightarrow> int list \<Rightarrow> error + (int \<times> int list)" where
  "tot_input_loop v [] tot_input spending_outputs_list = Inr (tot_input, spending_outputs_list)"
| "tot_input_loop v (out_id # ids) tot_input spending_outputs_list =
     (case iloc0 (map o_value (filter (\<lambda>r. o_id r = out_id) (out_df v))) of
        Inl e \<Rightarrow> Inl e
      | Inr x \<Rightarrow>
          tot_input_loop v ids (wrap64 (tot_input + x)) (spending_outputs_list @ [out_id]))"

text \<open>The loop \<open>for value in outputs['value']\<close>; \<open>None\<close> is the return at a negative value.
  Iterating the column gives Python ints, so \<open>tot_output\<close> does not wrap.\<close>

fun tot_output_loop :: "int list \<Rightarrow> int \<Rightarrow> int option" where
  "tot_output_loop [] tot_output = Some tot_output"
| "tot_output_loop (x # xs) tot_output =
     (if x < 0 then None else tot_output_loop xs (tot_output + x))"

definition is_valid ::
  "validator \<Rightarrow> int \<Rightarrow> in_row list \<Rightarrow> out_row list \<Rightarrow> error + (bool \<times> validator)" where
  "is_valid v tx inputs outputs =
     (case is_valid_rows v tx inputs of
        Inl e \<Rightarrow> Inl e
      | Inr (ok, v1) \<Rightarrow>
          if \<not> ok then Inr (False, v1)
          else
            (case tot_input_loop v (map i_out_id inputs) 0 [] of
               Inl e \<Rightarrow> Inl e
             | Inr (tot_input, spending_outputs_list) \<Rightarrow>
                 if length spending_outputs_list \<noteq> card (set spending_outputs_list)
                 then Inr (False, v\<lparr>n_invalid := n_invalid v + 1,
                                     not_in_utxo := not_in_utxo v @ [tx]\<rparr>)
                 else
                   (case tot_output_loop (map o_value outputs) 0 of
                      None \<Rightarrow> Inr (False, v\<lparr>n_invalid := n_invalid v + 1,
                                              neg_output := neg_output v @ [tx]\<rparr>)
                    | Some tot_output \<Rightarrow>
                        if tot_input < tot_output
                        then Inr (False, v\<lparr>n_invalid := n_invalid v + 1,
                                            not_enough_value := not_enough_value v @ [tx]\<rparr>)
                        else Inr (True, v))))"

subsection \<open>drop_transaction\<close>

definition drop_transaction :: "validator \<Rightarrow> int \<Rightarrow> validator" where
  "drop_transaction v tx =
     v\<lparr>tx_df := filter (\<lambda>r. t_id r \<noteq> tx) (tx_df v),
       in_df := filter (\<lambda>r. i_tx_id r \<noteq> tx) (in_df v),
       out_df := filter (\<lambda>r. o_tx_id r \<noteq> tx) (out_df v)\<rparr>"

subsection \<open>validate_data\<close>

text \<open>
  \<open>coinbase_tx\<close> is the \<open>tx_id\<close> column of every input row with \<open>sig_id == 0\<close>;
  \<open>coinbase_outputs\<close> groups the output rows of those transactions by \<open>tx_id\<close>
  (one group per id that has at least one output row, keys ascending) and sums \<open>value\<close>,
  an int64 sum that wraps.
\<close>

definition coinbase_tx :: "validator \<Rightarrow> int list" where
  "coinbase_tx v = map i_tx_id (filter (\<lambda>r. i_sig_id r = 0) (in_df v))"

definition coinbase_outputs :: "validator \<Rightarrow> (int \<times> int) list" where
  "coinbase_outputs v =
     (let rows = filter (\<lambda>r. o_tx_id r \<in> set (coinbase_tx v)) (out_df v)
      in map (\<lambda>t. (t, wrap64 (sum_list (map o_value (filter (\<lambda>r. o_tx_id r = t) rows)))))
           (sort (remdups (map o_tx_id rows))))"

fun drop_invalid_coinbase :: "validator \<Rightarrow> (int \<times> int) list \<Rightarrow> validator" where
  "drop_invalid_coinbase v [] = v"
| "drop_invalid_coinbase v ((tx, val) # rest) =
     (if val < MINING_REWARD
      then drop_invalid_coinbase
             (drop_transaction
                (v\<lparr>n_invalid := n_invalid v + 1, invalid_coinbase := invalid_coinbase v @ [tx]\<rparr>) tx)
             rest
      else drop_invalid_coinbase v rest)"

definition pre_pass :: "validator \<Rightarrow> validator" where
  "pre_pass v = drop_invalid_coinbase v (coinbase_outputs v)"

fun add_all :: "int set \<Rightarrow> int list \<Rightarrow> int set" where
  "add_all u [] = u"
| "add_all u (x # xs) = add_all (insert x u) xs"

fun remove_all :: "int set \<Rightarrow> int list \<Rightarrow> error + int set" where
  "remove_all u [] = Inr u"
| "remove_all u (x # xs) = (if x \<in> u then remove_all (u - {x}) xs else Inl KeyError)"

definition inputs_of :: "validator \<Rightarrow> int \<Rightarrow> in_row list" where
  "inputs_of v tx = filter (\<lambda>r. i_tx_id r = tx) (in_df v)"

definition outputs_of :: "validator \<Rightarrow> int \<Rightarrow> out_row list" where
  "outputs_of v tx = filter (\<lambda>r. o_tx_id r = tx) (out_df v)"

text \<open>The body of the loop \<open>for tx_id in self.tx_df['id']\<close>.\<close>

definition process_tx :: "validator \<Rightarrow> int \<Rightarrow> error + validator" where
  "process_tx v tx =
     (let inputs = inputs_of v tx; outputs = outputs_of v tx in
      case iloc0 inputs of
        Inl e \<Rightarrow> Inl e
      | Inr first \<Rightarrow>
          if i_sig_id first = 0 \<and> i_out_id first = - 1
          then Inr (v\<lparr>utxo := add_all (utxo v) (map o_id outputs)\<rparr>)
          else
            (case is_valid v tx inputs outputs of
               Inl e \<Rightarrow> Inl e
             | Inr (ok, v1) \<Rightarrow>
                 if ok
                 then (case remove_all (utxo v1) (map i_out_id inputs) of
                         Inl e \<Rightarrow> Inl e
                       | Inr u \<Rightarrow> Inr (v1\<lparr>utxo := add_all u (map o_id outputs)\<rparr>))
                 else Inr (drop_transaction v1 tx)))"

fun main_pass :: "validator \<Rightarrow> int list \<Rightarrow> error + validator" where
  "main_pass v [] = Inr v"
| "main_pass v (tx # txs) =
     (case process_tx v tx of Inl e \<Rightarrow> Inl e | Inr v1 \<Rightarrow> main_pass v1 txs)"

text \<open>What \<open>write_out\<close> stores: the three dataframes, the report and the ids of \<open>utxo\<close>.\<close>

record report =
  tot_invalid :: int
  r_not_in_utxo :: "nat \<times> int list"
  r_neg_dest_pk :: "nat \<times> int list"
  r_invalid_pk :: "nat \<times> int list"
  r_neg_output :: "nat \<times> int list"
  r_not_enough_value :: "nat \<times> int list"
  r_invalid_coinbase :: "nat \<times> int list"

record files =
  validated_transactions :: "tx_row list"
  validated_inputs :: "in_row list"
  validated_outputs :: "out_row list"
  validation_analytics :: report
  utxo_ids :: "int set"

definition write_out :: "validator \<Rightarrow> files" where
  "write_out v =
     \<lparr>validated_transactions = tx_df v, validated_inputs = in_df v, validated_outputs = out_df v,
      validation_analytics =
        \<lparr>tot_invalid = n_invalid v,
         r_not_in_utxo = (length (not_in_utxo v), not_in_utxo v),
         r_neg_dest_pk = (length (neg_dest_pk v), neg_dest_pk v),
         r_invalid_pk = (length (invalid_pk v), invalid_pk v),
         r_neg_output = (length (neg_output v), neg_output v),
         r_not_enough_value = (length (not_enough_value v), not_enough_value v),
         r_invalid_coinbase = (length (invalid_coinbase v), invalid_coinbase v)\<rparr>,
      utxo_ids = utxo v\<rparr>"

text \<open>The pass up to the call of \<open>write_out\<close>: the coinbase pre-pass, then the loop over the
  \<open>id\<close> column of \<open>tx_df\<close> as it is after the pre-pass.\<close>

definition replay :: "validator \<Rightarrow> error + validator" where
  "replay v = (let v0 = pre_pass v in main_pass v0 (map t_id (tx_df v0)))"

definition validate_data :: "validator \<Rightarrow> error + (validator \<times> files)" where
  "validate_data v =
     (case replay v of Inl e \<Rightarrow> Inl e | Inr v1 \<Rightarrow> Inr (v1, write_out v1))"

subsection \<open>Notions used to state the properties\<close>

text \<open>The output row a spent id refers to: the first row of \<open>out_df\<close> with that id, which is
  the row \<open>.iloc[0]\<close> selects.\<close>

definition referenced :: "validator \<Rightarrow> int \<Rightarrow> out_row option" where
  "referenced v out_id = find (\<lambda>r. o_id r = out_id) (out_df v)"

text \<open>Every id and key of the three relations is an integer that float64 holds exactly.\<close>

definition exact_int :: "int \<Rightarrow> bool" where
  "exact_int x \<longleftrightarrow> - 9007199254740992 \<le> x \<and> x \<le> 9007199254740992"

definition exact_ids :: "validator \<Rightarrow> bool" where
  "exact_ids v \<longleftrightarrow>
     list_all (\<lambda>r. exact_int (t_id r)) (tx_df v)
     \<and> list_all (\<lambda>r. exact_int (i_tx_id r) \<and> exact_int (i_sig_id r) \<and> exact_int (i_out_id r)) (in_df v)
     \<and> list_all (\<lambda>r. exact_int (o_id r) \<and> exact_int (o_tx_id r) \<and> exact_int (o_pk_id r)) (out_df v)"

subsection \<open>A small ledger\<close>

text \<open>
  Transaction 1 is a coinbase paying 5,000,000,000 to key 5 (output 10); transaction 2 spends
  output 10 into outputs 11 and 12; transaction 3 spends the unknown output 99; transaction 4 is
  a coinbase paying only 4,000,000,000.
\<close>

definition demo_txs :: "tx_row list" where
  "demo_txs = [\<lparr>t_id = 1, t_block_id = 0\<rparr>, \<lparr>t_id = 2, t_block_id = 1\<rparr>,
               \<lparr>t_id = 3, t_block_id = 1\<rparr>, \<lparr>t_id = 4, t_block_id = 2\<rparr>]"

definition demo_ins :: "in_row list" where
  "demo_ins = [\<lparr>i_id = 0, i_tx_id = 1, i_sig_id = 0, i_out_id = - 1\<rparr>,
               \<lparr>i_id = 1, i_tx_id = 2, i_sig_id = 5, i_out_id = 10\<rparr>,
               \<lparr>i_id = 2, i_tx_id = 3, i_sig_id = 6, i_out_id = 99\<rparr>,
               \<lparr>i_id = 3, i_tx_id = 4, i_sig_id = 0, i_out_id = - 1\<rparr>]"

definition demo_outs :: "out_row list" where
  "demo_outs = [\<lparr>o_id = 10, o_tx_id = 1, o_pk_id = 5, o_value = 5000000000\<rparr>,
                \<lparr>o_id = 11, o_tx_id = 2, o_pk_id = 6, o_value = 3000000000\<rparr>,
                \<lparr>o_id = 12, o_tx_id = 2, o_pk_id = 7, o_value = 1000000000\<rparr>,
                \<lparr>o_id = 13, o_tx_id = 3, o_pk_id = 8, o_value = 5\<rparr>,
                \<lparr>o_id = 14, o_tx_id = 4, o_pk_id = 9, o_value = 4000000000\<rparr>]"

definition demo :: validator where
  "demo = DataValidator class_body demo_txs demo_ins demo_outs"


subsection \<open>The classifier in the words of the specification\<close>

text \<open>
  The six rejection categories, and the decision of section 4.2: rules 1 to 3 (membership,
  ownership, destination validity) are looked at input by input in record order, then rule 4
  (no output spent twice), rule 5 (no negative output value) and rule 6 (value conservation).
\<close>

datatype reason = NotInUtxo | InvalidPk | NegDestPk | NegOutput | NotEnoughValue | InvalidCoinbase







definition output_value :: "out_row list \<Rightarrow> int" where
  "output_value outputs = sum_list (map o_value outputs)"


fun record_rejection :: "reason \<Rightarrow> int \<Rightarrow> validator \<Rightarrow> validator" where
  "record_rejection NotInUtxo tx v =
     v\<lparr>n_invalid := n_invalid v + 1, not_in_utxo := not_in_utxo v @ [tx]\<rparr>"
| "record_rejection InvalidPk tx v =
     v\<lparr>n_invalid := n_invalid v + 1, invalid_pk := invalid_pk v @ [tx]\<rparr>"
| "record_rejection NegDestPk tx v =
     v\<lparr>n_invalid := n_invalid v + 1, neg_dest_pk := neg_dest_pk v @ [tx]\<rparr>"
| "record_rejection NegOutput tx v =
     v\<lparr>n_invalid := n_invalid v + 1, neg_output := neg_output v @ [tx]\<rparr>"
| "record_rejection NotEnoughValue tx v =
     v\<lparr>n_invalid := n_invalid v + 1, not_enough_value := not_enough_value v @ [tx]\<rparr>"
| "record_rejection InvalidCoinbase tx v =
     v\<lparr>n_invalid := n_invalid v + 1, invalid_coinbase := invalid_coinbase v @ [tx]\<rparr>"









subsection \<open>Notions and ledgers for the coinbase pre-pass and for repeated runs\<close>

text \<open>A transaction the pre-pass rejects: some input row of it has \<open>sig_id == 0\<close>, it has
  at least one output row, and the 64-bit sum of its output values is less than the mining
  reward.\<close>

definition underpaid :: "validator \<Rightarrow> int \<Rightarrow> bool" where
  "underpaid v t \<longleftrightarrow>
     t \<in> set (coinbase_tx v) \<and> outputs_of v t \<noteq> []
     \<and> wrap64 (output_value (outputs_of v t)) < MINING_REWARD"


text \<open>Transaction 1 is a coinbase (first input with \<open>sig_id == 0\<close> and \<open>out_id == -1\<close>)
  that has no output row at all.\<close>

definition empty_coinbase_demo :: validator where
  "empty_coinbase_demo =
     DataValidator class_body [\<lparr>t_id = 1, t_block_id = 0\<rparr>]
       [\<lparr>i_id = 0, i_tx_id = 1, i_sig_id = 0, i_out_id = - 1\<rparr>] []"

text \<open>
  One run of the engine in a process whose class objects are \<open>cls\<close>: a validator is built
  on the three relations and \<open>validate_data\<close> is called; the result is the class objects
  after the run and what was written out.
\<close>

definition run ::
  "analytics \<Rightarrow> tx_row list \<Rightarrow> in_row list \<Rightarrow> out_row list \<Rightarrow> error + (analytics \<times> files)" where
  "run cls txs ins outs =
     (case validate_data (DataValidator cls txs ins outs) of
        Inl e \<Rightarrow> Inl e
      | Inr (v, f) \<Rightarrow> Inr (class_state v, f))"

text \<open>Transaction 2 spends output 11, which the coinbase transaction 3 creates after it.\<close>

definition rerun_txs :: "tx_row list" where
  "rerun_txs = [\<lparr>t_id = 2, t_block_id = 0\<rparr>, \<lparr>t_id = 3, t_block_id = 0\<rparr>]"

definition rerun_ins :: "in_row list" where
  "rerun_ins = [\<lparr>i_id = 0, i_tx_id = 2, i_sig_id = 5, i_out_id = 11\<rparr>,
                \<lparr>i_id = 1, i_tx_id = 3, i_sig_id = 0, i_out_id = - 1\<rparr>]"

definition rerun_outs :: "out_row list" where
  "rerun_outs = [\<lparr>o_id = 11, o_tx_id = 3, o_pk_id = 5, o_value = 5000000000\<rparr>,
                 \<lparr>o_id = 12, o_tx_id = 2, o_pk_id = 6, o_value = 1\<rparr>]"

definition after_first_run :: analytics where
  "after_first_run = class_body\<lparr>utxo := {11}, not_in_utxo := [2]\<rparr>"

text \<open>The ids the loop over \<open>coinbase_outputs\<close> rejects, in the order of the loop.\<close>

definition pre_rejected :: "(int \<times> int) list \<Rightarrow> int list" where
  "pre_rejected ps = map fst (filter (\<lambda>p. snd p < MINING_REWARD) ps)"

subsection \<open>The history of a main pass\<close>

text \<open>
  Which branch the body of the main loop takes for a transaction id in a state: the coinbase
  branch, which adds the ids of its output rows; the branch where \<open>is_valid\<close> returns True,
  which removes the ids its inputs spend and adds the ids of its output rows; or the last
  branch, which drops the transaction.
\<close>

datatype event = Coinbase int "int list" | Transfer int "int list" "int list" | Dropped int

definition is_coinbase :: "validator \<Rightarrow> int \<Rightarrow> bool" where
  "is_coinbase v tx =
     (case inputs_of v tx of [] \<Rightarrow> False | first # _ \<Rightarrow> i_sig_id first = 0 \<and> i_out_id first = - 1)"

definition event_of :: "validator \<Rightarrow> int \<Rightarrow> event" where
  "event_of v tx =
     (if is_coinbase v tx then Coinbase tx (map o_id (outputs_of v tx))
      else case is_valid v tx (inputs_of v tx) (outputs_of v tx) of
             Inr (True, _) \<Rightarrow> Transfer tx (map i_out_id (inputs_of v tx)) (map o_id (outputs_of v tx))
           | _ \<Rightarrow> Dropped tx)"

fun events :: "validator \<Rightarrow> int list \<Rightarrow> event list" where
  "events v [] = []"
| "events v (tx # txs) =
     (case process_tx v tx of Inl e \<Rightarrow> [] | Inr v1 \<Rightarrow> event_of v tx # events v1 txs)"

fun inserted :: "event \<Rightarrow> int set" where
  "inserted (Coinbase tx outs) = set outs"
| "inserted (Transfer tx ins outs) = set outs"
| "inserted (Dropped tx) = {}"

fun removed :: "event \<Rightarrow> int set" where
  "removed (Coinbase tx outs) = {}"
| "removed (Transfer tx ins outs) = set ins"
| "removed (Dropped tx) = {}"

fun event_tx :: "event \<Rightarrow> int" where
  "event_tx (Coinbase tx outs) = tx"
| "event_tx (Transfer tx ins outs) = tx"
| "event_tx (Dropped tx) = tx"

fun accepted :: "event \<Rightarrow> bool" where
  "accepted (Dropped tx) = False"
| "accepted _ = True"

text \<open>An id is live after a list of events when some accepted transaction produced it and no
  later accepted transaction consumed it.\<close>

fun live :: "int \<Rightarrow> event list \<Rightarrow> bool" where
  "live x [] = False"
| "live x (e # es) = ((x \<in> inserted e \<and> list_all (\<lambda>e'. x \<notin> removed e') es) \<or> live x es)"

definition history :: "validator \<Rightarrow> event list" where
  "history v = (let v0 = pre_pass v in events v0 (map t_id (tx_df v0)))"

definition all_rejected :: "validator \<Rightarrow> int list" where
  "all_rejected v =
     not_in_utxo v @ neg_dest_pk v @ invalid_pk v @ neg_output v @ not_enough_value v
       @ invalid_coinbase v"

text \<open>The ids a main pass drops.\<close>

definition dropped_ids :: "event list \<Rightarrow> int set" where
  "dropped_ids es = event_tx ` {e \<in> set es. \<not> accepted e}"

text \<open>Every unspent id is the id of an output row of a transaction that the rest of the pass
  will not visit again.\<close>

definition backed :: "validator \<Rightarrow> int list \<Rightarrow> bool" where
  "backed v txs \<longleftrightarrow> utxo v \<subseteq> o_id ` {r \<in> set (out_df v). o_tx_id r \<notin> set txs}"

subsection \<open>Ledgers for the properties of a whole run\<close>

text \<open>Transaction 1 is a coinbase creating output 10, transaction 2 spends it into output 11,
  and the coinbase transaction 3 has an output row whose id is 10 again.\<close>

definition reused_id_demo :: validator where
  "reused_id_demo =
     DataValidator class_body
       [\<lparr>t_id = 1, t_block_id = 0\<rparr>, \<lparr>t_id = 2, t_block_id = 1\<rparr>, \<lparr>t_id = 3, t_block_id = 2\<rparr>]
       [\<lparr>i_id = 0, i_tx_id = 1, i_sig_id = 0, i_out_id = - 1\<rparr>,
        \<lparr>i_id = 1, i_tx_id = 2, i_sig_id = 5, i_out_id = 10\<rparr>,
        \<lparr>i_id = 2, i_tx_id = 3, i_sig_id = 0, i_out_id = - 1\<rparr>]
       [\<lparr>o_id = 10, o_tx_id = 1, o_pk_id = 5, o_value = 5000000000\<rparr>,
        \<lparr>o_id = 11, o_tx_id = 2, o_pk_id = 6, o_value = 1\<rparr>,
        \<lparr>o_id = 10, o_tx_id = 3, o_pk_id = 7, o_value = 5000000000\<rparr>]"

text \<open>The state of the small ledger when the run ends, and its history.\<close>

definition demo_final :: validator where
  "demo_final =
     demo\<lparr>utxo := {11, 12}, not_in_utxo := [3], invalid_coinbase := [4],
          tx_df := [\<lparr>t_id = 1, t_block_id = 0\<rparr>, \<lparr>t_id = 2, t_block_id = 1\<rparr>],
          in_df := [\<lparr>i_id = 0, i_tx_id = 1, i_sig_id = 0, i_out_id = - 1\<rparr>,
                    \<lparr>i_id = 1, i_tx_id = 2, i_sig_id = 5, i_out_id = 10\<rparr>],
          out_df := [\<lparr>o_id = 10, o_tx_id = 1, o_pk_id = 5, o_value = 5000000000\<rparr>,
                     \<lparr>o_id = 11, o_tx_id = 2, o_pk_id = 6, o_value = 3000000000\<rparr>,
                     \<lparr>o_id = 12, o_tx_id = 2, o_pk_id = 7, o_value = 1000000000\<rparr>],
          n_invalid := 2\<rparr>"

text \<open>Both ledgers at the moment transaction 1 has been processed.\<close>

definition reused_after_1 :: validator where
  "reused_after_1 = reused_id_demo\<lparr>utxo := {10}\<rparr>"

definition demo_after_1 :: validator where
  "demo_after_1 = (pre_pass demo)\<lparr>utxo := {10}\<rparr>"

text \<open>The output rows a lookup by id selects from.\<close>

definition rows_with_id :: "validator \<Rightarrow> int \<Rightarrow> out_row list" where
  "rows_with_id v x = filter (\<lambda>r. o_id r = x) (out_df v)"


section \<open>The loops of the pass\<close>

lemma add_all_eq: "add_all u xs = u \<union> set xs"
  by (induction xs arbitrary: u) auto

lemma remove_all_ok:
  "set xs \<subseteq> u \<Longrightarrow> distinct xs \<Longrightarrow> remove_all u xs = Inr (u - set xs)"
proof (induction xs arbitrary: u)
  case Nil
  then show ?case by simp
next
  case (Cons x xs)
  have "set xs \<subseteq> u - {x}" using Cons.prems by auto
  moreover have "distinct xs" using Cons.prems by simp
  ultimately have "remove_all (u - {x}) xs = Inr (u - {x} - set xs)" by (rule Cons.IH)
  moreover have "u - {x} - set xs = u - set (x # xs)" by auto
  ultimately show ?case using Cons.prems by simp
qed

lemma remove_all_Inr:
  "remove_all u xs = Inr u' \<Longrightarrow> set xs \<subseteq> u \<and> distinct xs \<and> u' = u - set xs"
proof (induction xs arbitrary: u)
  case Nil
  then show ?case by simp
next
  case (Cons x xs)
  from Cons.prems have x: "x \<in> u" and r: "remove_all (u - {x}) xs = Inr u'"
    by (auto split: if_splits)
  from Cons.IH[OF r] show ?case using x by auto
qed

lemma iloc0_map_filter:
  "iloc0 (map f (filter P xs)) = (case find P xs of None \<Rightarrow> Inl IndexError | Some r \<Rightarrow> Inr (f r))"
  by (induction xs) (auto simp: iloc0_def)


lemma wrap64_int64: "int64 x \<Longrightarrow> wrap64 x = x"
  by (simp add: int64_def wrap64_def)

lemma int64_wrap64: "int64 (wrap64 x)"
  by (simp add: int64_def wrap64_def)

lemma wrap64_idem: "wrap64 (wrap64 x) = wrap64 x"
  by (rule wrap64_int64[OF int64_wrap64])

lemma wrap64_add_left: "wrap64 (wrap64 a + b) = wrap64 (a + b)"
proof -
  have "(b + (a + 9223372036854775808) mod 18446744073709551616) mod 18446744073709551616
        = (b + (a + 9223372036854775808)) mod 18446744073709551616"
    by (rule mod_add_right_eq)
  then show ?thesis by (simp add: wrap64_def ac_simps)
qed

lemma tot_input_loop_Inr:
  "tot_input_loop v ids t l = Inr (t', l') \<Longrightarrow> wrap64 t = t \<Longrightarrow>
     l' = l @ ids \<and>
     (\<exists>rows. map (referenced v) ids = map Some rows \<and> t' = wrap64 (t + sum_list (map o_value rows)))"
proof (induction ids arbitrary: t l)
  case Nil
  then show ?case by simp
next
  case (Cons a ids)
  from Cons.prems obtain r where r: "referenced v a = Some r"
    and rest: "tot_input_loop v ids (wrap64 (t + o_value r)) (l @ [a]) = Inr (t', l')"
    by (auto simp: iloc0_map_filter referenced_def split: option.splits)
  from Cons.IH[OF rest wrap64_idem] obtain rows where l: "l' = (l @ [a]) @ ids"
    and rows: "map (referenced v) ids = map Some rows"
    and t: "t' = wrap64 (wrap64 (t + o_value r) + sum_list (map o_value rows))"
    by auto
  have "map (referenced v) (a # ids) = map Some (r # rows)" using r rows by simp
  moreover have "t' = wrap64 (t + sum_list (map o_value (r # rows)))"
    using t by (simp add: wrap64_add_left add.assoc)
  ultimately show ?case using l by (metis append.assoc append_Cons append_Nil)
qed


lemma wrap64_0: "wrap64 0 = 0"
  by (simp add: wrap64_def)

lemma is_valid_rows_True:
  "is_valid_rows v tx rows = Inr (True, v1) \<Longrightarrow> v1 = v \<and> (\<forall>row\<in>set rows. i_out_id row \<in> utxo v)"
  by (induction rows) (auto split: if_splits sum.splits)

lemma length_card_distinct: "length xs \<noteq> card (set xs) \<longleftrightarrow> \<not> distinct xs"
  using card_distinct distinct_card by metis

lemma is_valid_True:
  assumes "is_valid v tx inputs outputs = Inr (True, v1)"
  shows "v1 = v" and "set (map i_out_id inputs) \<subseteq> utxo v" and "distinct (map i_out_id inputs)"
proof -
  from assms obtain w where rows: "is_valid_rows v tx inputs = Inr (True, w)"
    by (auto simp: is_valid_def split: sum.splits prod.splits if_splits)
  from is_valid_rows_True[OF rows] show "set (map i_out_id inputs) \<subseteq> utxo v" by auto
  from assms rows obtain t l where loop: "tot_input_loop v (map i_out_id inputs) 0 [] = Inr (t, l)"
    and len: "\<not> length l \<noteq> card (set l)"
    by (auto simp: is_valid_def split: sum.splits prod.splits if_splits)
  from tot_input_loop_Inr[OF loop wrap64_0] have "l = map i_out_id inputs" by simp
  with len show "distinct (map i_out_id inputs)" using length_card_distinct by blast
  from assms show "v1 = v"
    by (auto simp: is_valid_def split: sum.splits prod.splits if_splits option.splits)
qed

lemma is_valid_rows_error: "is_valid_rows v tx rows = Inl e \<Longrightarrow> e = IndexError"
  by (induction rows) (auto simp: iloc0_map_filter split: if_splits sum.splits option.splits)

lemma tot_input_loop_error: "tot_input_loop v ids t l = Inl e \<Longrightarrow> e = IndexError"
  by (induction ids arbitrary: t l) (auto simp: iloc0_map_filter split: sum.splits option.splits)

lemma is_valid_error: "is_valid v tx inputs outputs = Inl e \<Longrightarrow> e = IndexError"
  by (auto simp: is_valid_def split: sum.splits prod.splits if_splits option.splits
      dest: is_valid_rows_error tot_input_loop_error)

lemma process_tx_no_KeyError: "process_tx v tx \<noteq> Inl KeyError"
proof
  assume a: "process_tx v tx = Inl KeyError"
  show False
  proof (cases "is_valid v tx (inputs_of v tx) (outputs_of v tx)")
    case (Inl e)
    with is_valid_error have "e = IndexError" by blast
    with a Inl show False
      by (auto simp: process_tx_def Let_def iloc0_def split: list.splits if_splits)
  next
    case (Inr p)
    obtain ok v1 where p: "p = (ok, v1)" by (cases p)
    show False
    proof (cases ok)
      case True
      from Inr p True have "is_valid v tx (inputs_of v tx) (outputs_of v tx) = Inr (True, v1)"
        by simp
      from is_valid_True[OF this]
      have "remove_all (utxo v1) (map i_out_id (inputs_of v tx)) =
              Inr (utxo v1 - set (map i_out_id (inputs_of v tx)))"
        by (intro remove_all_ok) auto
      with a Inr p True show False
        by (auto simp: process_tx_def Let_def iloc0_def split: list.splits if_splits)
    next
      case False
      with a Inr p show False
        by (auto simp: process_tx_def Let_def iloc0_def split: list.splits if_splits)
    qed
  qed
qed

lemma main_pass_no_KeyError: "main_pass v txs \<noteq> Inl KeyError"
  by (induction txs arbitrary: v) (auto simp: process_tx_no_KeyError split: sum.splits)

lemma take_map_nth_distinct:
  "distinct xs \<Longrightarrow> k < length xs \<Longrightarrow> xs ! k \<notin> set (take k xs)"
  by (metis distinct_take id_take_nth_drop distinct_append not_distinct_conv_prefix
      append_take_drop_id Cons_nth_drop_Suc distinct.simps(2) set_append UnCI list.set_intros(1) disjoint_iff)


section \<open>The classifier\<close>

















lemmas run_simps = DataValidator_def class_body_def inputs_of_def outputs_of_def
  is_valid_def iloc0_def output_value_def replay_def pre_pass_def coinbase_outputs_def
  coinbase_tx_def MINING_REWARD_def drop_transaction_def process_tx_def validate_data_def
  write_out_def class_state_def run_def wrap64_def int64_def exact_ids_def exact_int_def


section \<open>Value conservation and the internal double spend\<close>






section \<open>The coinbase pre-pass\<close>

lemma drop_invalid_coinbase_eq:
  "drop_invalid_coinbase v ps =
     v\<lparr>n_invalid := n_invalid v + int (length (pre_rejected ps)),
       invalid_coinbase := invalid_coinbase v @ pre_rejected ps,
       tx_df := filter (\<lambda>r. t_id r \<notin> set (pre_rejected ps)) (tx_df v),
       in_df := filter (\<lambda>r. i_tx_id r \<notin> set (pre_rejected ps)) (in_df v),
       out_df := filter (\<lambda>r. o_tx_id r \<notin> set (pre_rejected ps)) (out_df v)\<rparr>"
proof (induction ps arbitrary: v)
  case Nil
  show ?case by (simp add: pre_rejected_def)
next
  case (Cons p ps)
  obtain tx val where p: "p = (tx, val)" by (cases p)
  show ?case
  proof (cases "val < MINING_REWARD")
    case False
    then have "pre_rejected (p # ps) = pre_rejected ps" by (simp add: pre_rejected_def p)
    with False Cons show ?thesis by (simp add: p)
  next
    case True
    then have r: "pre_rejected (p # ps) = tx # pre_rejected ps" by (simp add: pre_rejected_def p)
    have conj: "\<And>P Q xs. filter P (filter Q xs) = filter (\<lambda>x. Q x \<and> P x) xs" by simp
    show ?thesis
      unfolding r using True
      by (simp add: p Cons drop_transaction_def conj del: filter_filter)
  qed
qed

lemma coinbase_group:
  "t \<in> set (coinbase_tx v) \<Longrightarrow>
     filter (\<lambda>r. o_tx_id r = t) (filter (\<lambda>r. o_tx_id r \<in> set (coinbase_tx v)) (out_df v)) = outputs_of v t"
  by (simp add: outputs_of_def) (metis (mono_tags, lifting) filter_cong)

lemma pre_rejected_coinbase_outputs:
  "pre_rejected (coinbase_outputs v) =
     filter (underpaid v)
       (sort (remdups (map o_tx_id (filter (\<lambda>r. o_tx_id r \<in> set (coinbase_tx v)) (out_df v)))))"
proof -
  let ?rows = "filter (\<lambda>r. o_tx_id r \<in> set (coinbase_tx v)) (out_df v)"
  let ?keys = "sort (remdups (map o_tx_id ?rows))"
  let ?g = "\<lambda>t. (t, wrap64 (sum_list (map o_value (filter (\<lambda>r. o_tx_id r = t) ?rows))))"
  have "pre_rejected (coinbase_outputs v) = filter (\<lambda>t. snd (?g t) < MINING_REWARD) ?keys"
    by (simp add: pre_rejected_def coinbase_outputs_def Let_def filter_map comp_def)
  also have "\<dots> = filter (underpaid v) ?keys"
  proof (rule filter_cong[OF refl])
    fix t assume "t \<in> set ?keys"
    then obtain r where r: "r \<in> set (out_df v)" "o_tx_id r = t" and cb: "t \<in> set (coinbase_tx v)"
      by auto
    then have ne: "outputs_of v t \<noteq> []" by (auto simp: outputs_of_def filter_empty_conv)
    show "(snd (?g t) < MINING_REWARD) = underpaid v t"
      using cb ne coinbase_group[OF cb]
      by (simp add: underpaid_def output_value_def del: filter_filter)
  qed
  finally show ?thesis .
qed

lemma set_pre_rejected: "set (pre_rejected (coinbase_outputs v)) = {t. underpaid v t}"
proof -
  have "t \<in> o_tx_id ` set (out_df v)" if "outputs_of v t \<noteq> []" for t
    using that by (auto simp: outputs_of_def filter_empty_conv)
  then show ?thesis
    by (auto simp: pre_rejected_coinbase_outputs underpaid_def)
qed

lemma distinct_pre_rejected: "distinct (pre_rejected (coinbase_outputs v))"
  by (simp add: pre_rejected_coinbase_outputs)

lemma sorted_pre_rejected: "sorted (pre_rejected (coinbase_outputs v))"
  by (simp add: pre_rejected_coinbase_outputs sorted_wrt_filter)

lemma pre_rejected_sorted_list:
  "pre_rejected (coinbase_outputs v) = sorted_list_of_set {t. underpaid v t}"
  using sorted_pre_rejected distinct_pre_rejected set_pre_rejected
  by (metis sorted_list_of_set.idem_if_sorted_distinct)

lemma pre_pass_eq:
  "pre_pass v =
     v\<lparr>n_invalid := n_invalid v + int (card {t. underpaid v t}),
       invalid_coinbase := invalid_coinbase v @ sorted_list_of_set {t. underpaid v t},
       tx_df := filter (\<lambda>r. \<not> underpaid v (t_id r)) (tx_df v),
       in_df := filter (\<lambda>r. \<not> underpaid v (i_tx_id r)) (in_df v),
       out_df := filter (\<lambda>r. \<not> underpaid v (o_tx_id r)) (out_df v)\<rparr>"
proof -
  have len: "length (pre_rejected (coinbase_outputs v)) = card {t. underpaid v t}"
    using distinct_card[OF distinct_pre_rejected, of v] by (simp add: set_pre_rejected)
  show ?thesis
    unfolding pre_pass_def drop_invalid_coinbase_eq len
    by (simp add: set_pre_rejected pre_rejected_sorted_list[symmetric])
qed




text \<open>
  C4. A coinbase transaction with no output row has outputs summing to 0, below the mining
  reward, yet \<open>coinbase_outputs\<close> has no group for it: the pre-pass keeps it and the main pass
  accepts it as a coinbase. The run ends with the transaction still in \<open>tx_df\<close> and nothing
  recorded in \<open>invalid_coinbase\<close>.
\<close>

theorem coinbase_without_outputs:
  "outputs_of empty_coinbase_demo 1 = []
   \<and> output_value (outputs_of empty_coinbase_demo 1) = 0
   \<and> replay empty_coinbase_demo = Inr empty_coinbase_demo
   \<and> map t_id (tx_df empty_coinbase_demo) = [1]
   \<and> invalid_coinbase empty_coinbase_demo = []"
  by (simp add: empty_coinbase_demo_def run_simps)

section \<open>Two runs in one process\<close>

text \<open>
  C9. A first run on a ledger in which transaction 2 spends an output created later rejects
  transaction 2. A second validator built on the same three relations starts from the \<open>utxo\<close>
  set and the id lists the first run left in the class: it accepts transaction 2, and writes
  other relations, another \<open>utxo\<close> listing and another report, whose \<open>tot_invalid\<close> is 0
  while \<open>not_in_utxo\<close> still lists transaction 2.
\<close>

theorem second_run_differs:
  "run class_body rerun_txs rerun_ins rerun_outs =
     Inr (after_first_run,
          \<lparr>validated_transactions = [\<lparr>t_id = 3, t_block_id = 0\<rparr>],
           validated_inputs = [\<lparr>i_id = 1, i_tx_id = 3, i_sig_id = 0, i_out_id = - 1\<rparr>],
           validated_outputs = [\<lparr>o_id = 11, o_tx_id = 3, o_pk_id = 5, o_value = 5000000000\<rparr>],
           validation_analytics =
             \<lparr>tot_invalid = 1, r_not_in_utxo = (1, [2]), r_neg_dest_pk = (0, []),
              r_invalid_pk = (0, []), r_neg_output = (0, []), r_not_enough_value = (0, []),
              r_invalid_coinbase = (0, [])\<rparr>,
           utxo_ids = {11}\<rparr>)
   \<and> run after_first_run rerun_txs rerun_ins rerun_outs =
     Inr (class_body\<lparr>utxo := {11, 12}, not_in_utxo := [2]\<rparr>,
          \<lparr>validated_transactions = rerun_txs,
           validated_inputs = rerun_ins,
           validated_outputs = rerun_outs,
           validation_analytics =
             \<lparr>tot_invalid = 0, r_not_in_utxo = (1, [2]), r_neg_dest_pk = (0, []),
              r_invalid_pk = (0, []), r_neg_output = (0, []), r_not_enough_value = (0, []),
              r_invalid_coinbase = (0, [])\<rparr>,
           utxo_ids = {11, 12}\<rparr>)"
  by (simp add: after_first_run_def rerun_txs_def rerun_ins_def rerun_outs_def run_simps insert_commute)

section \<open>The main pass\<close>

lemma is_valid_rows_False:
  "is_valid_rows v tx rows = Inr (False, w) \<Longrightarrow>
     \<exists>r. r \<noteq> InvalidCoinbase \<and> w = record_rejection r tx v"
proof (induction rows)
  case Nil
  then show ?case by simp
next
  case (Cons row rows)
  show ?case
  proof (cases "is_valid_rows v tx (row # rows) = is_valid_rows v tx rows")
    case True
    with Cons show ?thesis by simp
  next
    case False
    with Cons.prems have
      "w = record_rejection NotInUtxo tx v \<or> w = record_rejection InvalidPk tx v
       \<or> w = record_rejection NegDestPk tx v"
      by (auto split: if_splits sum.splits)
    then show ?thesis by blast
  qed
qed

lemma is_valid_False:
  assumes "is_valid v tx inputs outputs = Inr (False, w)"
  shows "\<exists>r. r \<noteq> InvalidCoinbase \<and> w = record_rejection r tx v"
proof (cases "is_valid_rows v tx inputs")
  case (Inl e)
  with assms show ?thesis by (simp add: is_valid_def)
next
  case (Inr p)
  obtain ok v1 where p: "p = (ok, v1)" by (cases p)
  show ?thesis
  proof (cases ok)
    case False
    with assms Inr p have "is_valid_rows v tx inputs = Inr (False, w)" by (simp add: is_valid_def)
    then show ?thesis by (rule is_valid_rows_False)
  next
    case True
    with assms Inr p have
      "w = record_rejection NotInUtxo tx v \<or> w = record_rejection NegOutput tx v
       \<or> w = record_rejection NotEnoughValue tx v"
      by (auto simp: is_valid_def split: sum.splits prod.splits if_splits option.splits)
    then show ?thesis by blast
  qed
qed

lemma process_tx_step:
  assumes "inputs_of v tx = first # rest"
  shows "process_tx v tx =
     (if i_sig_id first = 0 \<and> i_out_id first = - 1
      then Inr (v\<lparr>utxo := add_all (utxo v) (map o_id (outputs_of v tx))\<rparr>)
      else
        (case is_valid v tx (inputs_of v tx) (outputs_of v tx) of
           Inl e \<Rightarrow> Inl e
         | Inr (ok, v1) \<Rightarrow>
             if ok
             then (case remove_all (utxo v1) (map i_out_id (inputs_of v tx)) of
                     Inl e \<Rightarrow> Inl e
                   | Inr u \<Rightarrow> Inr (v1\<lparr>utxo := add_all u (map o_id (outputs_of v tx))\<rparr>))
             else Inr (drop_transaction v1 tx)))"
  unfolding process_tx_def Let_def iloc0_def by (simp add: assms)

text \<open>What one turn of the main loop does, by the branch it takes.\<close>

lemma process_tx_cases:
  assumes "process_tx v tx = Inr v1"
  obtains
    (coinbase) "event_of v tx = Coinbase tx (map o_id (outputs_of v tx))"
      "v1 = v\<lparr>utxo := utxo v \<union> set (map o_id (outputs_of v tx))\<rparr>"
  | (transfer) "event_of v tx = Transfer tx (map i_out_id (inputs_of v tx)) (map o_id (outputs_of v tx))"
      "set (map i_out_id (inputs_of v tx)) \<subseteq> utxo v"
      "v1 = v\<lparr>utxo := utxo v - set (map i_out_id (inputs_of v tx)) \<union> set (map o_id (outputs_of v tx))\<rparr>"
  | (dropped) r where "event_of v tx = Dropped tx" "r \<noteq> InvalidCoinbase"
      "v1 = drop_transaction (record_rejection r tx v) tx"
proof -
  from assms obtain first rest where ins: "inputs_of v tx = first # rest"
    by (auto simp: process_tx_def Let_def iloc0_def split: list.splits)
  show thesis
  proof (cases "i_sig_id first = 0 \<and> i_out_id first = - 1")
    case True
    then have "is_coinbase v tx" by (simp add: is_coinbase_def ins)
    then have "event_of v tx = Coinbase tx (map o_id (outputs_of v tx))" by (simp add: event_of_def)
    moreover have "v1 = v\<lparr>utxo := utxo v \<union> set (map o_id (outputs_of v tx))\<rparr>"
      using assms True by (simp add: process_tx_def Let_def iloc0_def ins add_all_eq)
    ultimately show thesis by (rule coinbase)
  next
    case False
    then have nc: "\<not> is_coinbase v tx" by (simp add: is_coinbase_def ins)
    from assms False obtain ok w where iv: "is_valid v tx (inputs_of v tx) (outputs_of v tx) = Inr (ok, w)"
      by (auto simp: process_tx_def Let_def iloc0_def ins split: sum.splits)
    show thesis
    proof (cases ok)
      case True
      with iv have acc: "is_valid v tx (inputs_of v tx) (outputs_of v tx) = Inr (True, w)" by simp
      note t = is_valid_True[OF acc]
      have rm: "remove_all (utxo v) (map i_out_id (inputs_of v tx)) =
                  Inr (utxo v - set (map i_out_id (inputs_of v tx)))"
        using t by (intro remove_all_ok) auto
      have "event_of v tx = Transfer tx (map i_out_id (inputs_of v tx)) (map o_id (outputs_of v tx))"
        using nc acc by (simp add: event_of_def)
      moreover have "set (map i_out_id (inputs_of v tx)) \<subseteq> utxo v" using t by simp
      moreover have "v1 = v\<lparr>utxo := utxo v - set (map i_out_id (inputs_of v tx))
                               \<union> set (map o_id (outputs_of v tx))\<rparr>"
        using assms[unfolded process_tx_step[OF ins]] False t(1) rm
        by (simp add: acc add_all_eq del: set_map)
      ultimately show thesis by (rule transfer)
    next
      case no: False
      with iv have rej: "is_valid v tx (inputs_of v tx) (outputs_of v tx) = Inr (False, w)" by simp
      from is_valid_False[OF rej] obtain r where r: "r \<noteq> InvalidCoinbase" "w = record_rejection r tx v"
        by blast
      have "event_of v tx = Dropped tx" using nc rej by (simp add: event_of_def)
      moreover have "v1 = drop_transaction (record_rejection r tx v) tx"
        using assms False rej r by (simp add: process_tx_def Let_def iloc0_def ins)
      ultimately show thesis using r(1) by (intro dropped[of r]) auto
    qed
  qed
qed


lemma process_tx_utxo:
  assumes "process_tx v tx = Inr v1"
  shows "utxo v1 = utxo v - removed (event_of v tx) \<union> inserted (event_of v tx)"
    and "removed (event_of v tx) \<subseteq> utxo v"
proof -
  show "utxo v1 = utxo v - removed (event_of v tx) \<union> inserted (event_of v tx)"
    using assms
  proof (cases rule: process_tx_cases)
    case (dropped r)
    then show ?thesis by (cases r) (simp_all add: drop_transaction_def)
  qed simp_all
  show "removed (event_of v tx) \<subseteq> utxo v"
    using assms by (cases rule: process_tx_cases) simp_all
qed

lemma main_pass_append:
  "main_pass v (pre @ post) = Inr v' \<longleftrightarrow> (\<exists>vm. main_pass v pre = Inr vm \<and> main_pass vm post = Inr v')"
  by (induction pre arbitrary: v) (auto split: sum.splits)

lemma events_append:
  "main_pass v pre = Inr vm \<Longrightarrow> events v (pre @ post) = events v pre @ events vm post"
  by (induction pre arbitrary: v) (auto split: sum.splits)

lemma list_all_removed: "list_all (\<lambda>e'. x \<notin> removed e') es \<longleftrightarrow> (\<forall>e\<in>set es. x \<notin> removed e)"
  by (simp add: list_all_iff)

lemma main_pass_live:
  "main_pass v txs = Inr v' \<Longrightarrow>
     x \<in> utxo v' \<longleftrightarrow> live x (events v txs) \<or> (x \<in> utxo v \<and> (\<forall>e\<in>set (events v txs). x \<notin> removed e))"
proof (induction txs arbitrary: v)
  case Nil
  then show ?case by simp
next
  case (Cons tx txs)
  then obtain v1 where step: "process_tx v tx = Inr v1" and rest: "main_pass v1 txs = Inr v'"
    by (auto split: sum.splits)
  note ih = Cons.IH[OF rest]
  note u = process_tx_utxo[OF step]
  show ?case unfolding ih using u step
    by (auto simp: list_all_removed)
qed

lemma record_rejection_frame [simp]:
  "tx_df (record_rejection r tx v) = tx_df v"
  "in_df (record_rejection r tx v) = in_df v"
  "out_df (record_rejection r tx v) = out_df v"
  "utxo (record_rejection r tx v) = utxo v"
  "n_invalid (record_rejection r tx v) = n_invalid v + 1"
  by (cases r; simp)+

lemma drop_transaction_frame [simp]:
  "tx_df (drop_transaction v tx) = filter (\<lambda>r. t_id r \<noteq> tx) (tx_df v)"
  "in_df (drop_transaction v tx) = filter (\<lambda>r. i_tx_id r \<noteq> tx) (in_df v)"
  "out_df (drop_transaction v tx) = filter (\<lambda>r. o_tx_id r \<noteq> tx) (out_df v)"
  "utxo (drop_transaction v tx) = utxo v"
  "n_invalid (drop_transaction v tx) = n_invalid v"
  "all_rejected (drop_transaction v tx) = all_rejected v"
  by (simp_all add: drop_transaction_def all_rejected_def)

lemma all_rejected_record:
  "set (all_rejected (record_rejection r tx v)) = insert tx (set (all_rejected v))"
  "length (all_rejected (record_rejection r tx v)) = Suc (length (all_rejected v))"
  "tx \<notin> set (all_rejected v) \<Longrightarrow> distinct (all_rejected v) \<Longrightarrow>
     distinct (all_rejected (record_rejection r tx v))"
  by (cases r; auto simp: all_rejected_def)+

text \<open>The relations after one turn: untouched when the transaction is accepted, without the
  rows of the transaction when it is dropped.\<close>

lemma process_tx_relations:
  assumes "process_tx v tx = Inr v1"
  shows "tx_df v1 = (if accepted (event_of v tx) then tx_df v else filter (\<lambda>r. t_id r \<noteq> tx) (tx_df v))"
    and "in_df v1 = (if accepted (event_of v tx) then in_df v else filter (\<lambda>r. i_tx_id r \<noteq> tx) (in_df v))"
    and "out_df v1 = (if accepted (event_of v tx) then out_df v else filter (\<lambda>r. o_tx_id r \<noteq> tx) (out_df v))"
  using assms by (cases rule: process_tx_cases; simp)+

lemma process_tx_lists:
  assumes "process_tx v tx = Inr v1"
  shows "accepted (event_of v tx) \<Longrightarrow> all_rejected v1 = all_rejected v \<and> n_invalid v1 = n_invalid v"
    and "\<not> accepted (event_of v tx) \<Longrightarrow>
           set (all_rejected v1) = insert tx (set (all_rejected v))
           \<and> length (all_rejected v1) = Suc (length (all_rejected v))
           \<and> n_invalid v1 = n_invalid v + 1
           \<and> (tx \<notin> set (all_rejected v) \<longrightarrow> distinct (all_rejected v) \<longrightarrow> distinct (all_rejected v1))"
proof -
  show "all_rejected v1 = all_rejected v \<and> n_invalid v1 = n_invalid v" if "accepted (event_of v tx)"
    using assms that by (cases rule: process_tx_cases) (simp_all add: all_rejected_def)
  show "set (all_rejected v1) = insert tx (set (all_rejected v))
           \<and> length (all_rejected v1) = Suc (length (all_rejected v))
           \<and> n_invalid v1 = n_invalid v + 1
           \<and> (tx \<notin> set (all_rejected v) \<longrightarrow> distinct (all_rejected v) \<longrightarrow> distinct (all_rejected v1))"
    if "\<not> accepted (event_of v tx)"
    using assms that by (cases rule: process_tx_cases) (simp_all add: all_rejected_record)
qed

lemma event_tx_event_of:
  assumes "process_tx v tx = Inr v1"
  shows "event_tx (event_of v tx) = tx"
  using assms by (cases rule: process_tx_cases) simp_all


lemma main_pass_invariant:
  assumes "main_pass v txs = Inr v'" and "P v"
    and "\<And>v tx v1. P v \<Longrightarrow> process_tx v tx = Inr v1 \<Longrightarrow> P v1"
  shows "P v'"
  using assms(1,2)
proof (induction txs arbitrary: v)
  case Nil
  then show ?case by simp
next
  case (Cons tx txs)
  then obtain v1 where step: "process_tx v tx = Inr v1" and rest: "main_pass v1 txs = Inr v'"
    by (auto split: sum.splits)
  from assms(3)[OF Cons.prems(2) step] Cons.IH[OF rest] show ?case by blast
qed

lemma dropped_ids_Cons:
  "dropped_ids (e # es) = (if accepted e then dropped_ids es else insert (event_tx e) (dropped_ids es))"
  by (auto simp: dropped_ids_def)

lemma main_pass_relations:
  "main_pass v txs = Inr v' \<Longrightarrow>
     tx_df v' = filter (\<lambda>r. t_id r \<notin> dropped_ids (events v txs)) (tx_df v)
     \<and> in_df v' = filter (\<lambda>r. i_tx_id r \<notin> dropped_ids (events v txs)) (in_df v)
     \<and> out_df v' = filter (\<lambda>r. o_tx_id r \<notin> dropped_ids (events v txs)) (out_df v)
     \<and> set (all_rejected v') = set (all_rejected v) \<union> dropped_ids (events v txs)"
proof (induction txs arbitrary: v)
  case Nil
  then show ?case by (simp add: dropped_ids_def)
next
  case (Cons tx txs)
  then obtain v1 where step: "process_tx v tx = Inr v1" and rest: "main_pass v1 txs = Inr v'"
    by (auto split: sum.splits)
  note ih = Cons.IH[OF rest]
  note rel = process_tx_relations[OF step] and ls = process_tx_lists[OF step]
    and tx = event_tx_event_of[OF step]
  have conj: "\<And>P Q xs. filter P (filter Q xs) = filter (\<lambda>x. Q x \<and> P x) xs" by simp
  show ?case
  proof (cases "accepted (event_of v tx)")
    case True
    with ih rel ls(1) step show ?thesis by (simp add: dropped_ids_Cons)
  next
    case False
    with ih rel ls(2) step tx show ?thesis
      by (simp add: dropped_ids_Cons conj del: filter_filter)
  qed
qed

lemma process_tx_out_rows:
  assumes "process_tx v tx = Inr v1"
  shows "{r \<in> set (out_df v). o_tx_id r \<noteq> tx} \<subseteq> set (out_df v1)"
    and "set (out_df v1) \<subseteq> set (out_df v)"
    and "inserted (event_of v tx) \<subseteq> o_id ` {r \<in> set (out_df v1). o_tx_id r = tx}"
    and "inserted (event_of v tx) \<subseteq> o_id ` {r \<in> set (out_df v). o_tx_id r = tx}"
  using assms by (cases rule: process_tx_cases; auto simp: outputs_of_def)+

lemma process_tx_backed:
  assumes step: "process_tx v tx = Inr v1" and b: "backed v (tx # txs)" and new: "tx \<notin> set txs"
  shows "backed v1 txs"
  unfolding backed_def
proof
  fix x assume "x \<in> utxo v1"
  then have "x \<in> utxo v \<or> x \<in> inserted (event_of v tx)"
    using process_tx_utxo(1)[OF step] by auto
  then show "x \<in> o_id ` {r \<in> set (out_df v1). o_tx_id r \<notin> set txs}"
  proof
    assume "x \<in> utxo v"
    with b obtain r where "r \<in> set (out_df v)" "o_tx_id r \<notin> set (tx # txs)" "x = o_id r"
      by (auto simp: backed_def)
    with process_tx_out_rows(1)[OF step] show ?thesis by auto
  next
    assume "x \<in> inserted (event_of v tx)"
    with process_tx_out_rows(3)[OF step] new show ?thesis by auto
  qed
qed

lemma main_pass_backed:
  "main_pass v pre = Inr vm \<Longrightarrow> distinct (pre @ post) \<Longrightarrow> backed v (pre @ post) \<Longrightarrow> backed vm post"
proof (induction pre arbitrary: v)
  case Nil
  then show ?case by simp
next
  case (Cons tx pre)
  then obtain v1 where step: "process_tx v tx = Inr v1" and rest: "main_pass v1 pre = Inr vm"
    by (auto split: sum.splits)
  have "backed v1 (pre @ post)"
    using process_tx_backed[OF step, of "pre @ post"] Cons.prems by simp
  with Cons.IH[OF rest] Cons.prems show ?case by simp
qed

lemma backed_referenced: "backed v txs \<Longrightarrow> x \<in> utxo v \<Longrightarrow> referenced v x \<noteq> None"
  by (auto simp: backed_def referenced_def find_None_iff)

lemma process_tx_distinct_out:
  assumes "process_tx v tx = Inr v1" and "distinct (map o_id (out_df v))"
  shows "distinct (map o_id (out_df v1))"
  using assms process_tx_relations(3)[OF assms(1)] by (simp add: distinct_map_filter)

lemma main_pass_distinct_out:
  "main_pass v txs = Inr v' \<Longrightarrow> distinct (map o_id (out_df v)) \<Longrightarrow> distinct (map o_id (out_df v'))"
  by (erule main_pass_invariant) (auto intro: process_tx_distinct_out)

text \<open>Insertions minus removals, when no output id and no transaction id occurs twice.\<close>

lemma main_pass_conservation:
  assumes "main_pass v txs = Inr v'" and "distinct txs" and "distinct (map o_id (out_df v))"
    and "utxo v = I - R" and "R \<subseteq> I"
    and "I \<subseteq> o_id ` {r \<in> set (out_df v). o_tx_id r \<notin> set txs}"
  shows "utxo v' = (I \<union> \<Union>(inserted ` set (events v txs))) - (R \<union> \<Union>(removed ` set (events v txs)))"
  using assms
proof (induction txs arbitrary: v I R)
  case Nil
  then show ?case by simp
next
  case (Cons tx txs)
  then obtain v1 where step: "process_tx v tx = Inr v1" and rest: "main_pass v1 txs = Inr v'"
    by (auto split: sum.splits)
  let ?e = "event_of v tx"
  note u = process_tx_utxo[OF step] and rows = process_tx_out_rows[OF step]
  have inj: "inj_on o_id (set (out_df v))" using Cons.prems(3) by (simp add: distinct_map)
  have disj: "I \<inter> inserted ?e = {}"
  proof (rule ccontr)
    assume "I \<inter> inserted ?e \<noteq> {}"
    then obtain x where xI: "x \<in> I" and xi: "x \<in> inserted ?e" by auto
    from xI Cons.prems(6) obtain r where r: "r \<in> set (out_df v)" "o_tx_id r \<noteq> tx" "x = o_id r"
      by auto
    from xi rows(4) obtain r' where r': "r' \<in> set (out_df v)" "o_tx_id r' = tx" "x = o_id r'"
      by auto
    from inj r r' have "r = r'" by (auto dest: inj_onD)
    with r r' show False by simp
  qed
  have rem: "removed ?e \<subseteq> I" using u(2) Cons.prems(4) by auto
  have 1: "distinct txs" using Cons.prems(2) by simp
  have 2: "distinct (map o_id (out_df v1))" by (rule process_tx_distinct_out[OF step Cons.prems(3)])
  have 3: "utxo v1 = (I \<union> inserted ?e) - (R \<union> removed ?e)"
    using u(1) Cons.prems(4,5) disj rem by auto
  have 4: "R \<union> removed ?e \<subseteq> I \<union> inserted ?e" using Cons.prems(5) rem by auto
  have 5: "I \<union> inserted ?e \<subseteq> o_id ` {r \<in> set (out_df v1). o_tx_id r \<notin> set txs}"
  proof
    fix x assume "x \<in> I \<union> inserted ?e"
    then show "x \<in> o_id ` {r \<in> set (out_df v1). o_tx_id r \<notin> set txs}"
    proof
      assume "x \<in> I"
      with Cons.prems(6) obtain r where "r \<in> set (out_df v)" "o_tx_id r \<notin> set (tx # txs)" "x = o_id r"
        by auto
      with rows(1) show ?thesis by auto
    next
      assume "x \<in> inserted ?e"
      with rows(3) Cons.prems(2) show ?thesis by auto
    qed
  qed
  from Cons.IH[OF rest 1 2 3 4 5] show ?case using step by (simp add: Un_assoc)
qed

lemma live_inserted: "live x es \<Longrightarrow> \<exists>e\<in>set es. accepted e \<and> x \<in> inserted e"
proof (induction es)
  case Nil
  then show ?case by simp
next
  case (Cons e es)
  then show ?case by (cases e) auto
qed

lemma is_valid_rows_no_error:
  assumes "\<forall>x\<in>utxo v. referenced v x \<noteq> None"
  shows "is_valid_rows v tx rows \<noteq> Inl e"
  using assms
  by (induction rows) (auto simp: iloc0_map_filter referenced_def split: option.splits)

lemma tot_input_loop_no_error:
  assumes "\<forall>x\<in>utxo v. referenced v x \<noteq> None" and "set ids \<subseteq> utxo v"
  shows "tot_input_loop v ids t l \<noteq> Inl e"
  using assms
  by (induction ids arbitrary: t l) (auto simp: iloc0_map_filter referenced_def split: option.splits)

lemma is_valid_no_error:
  assumes known: "\<forall>x\<in>utxo v. referenced v x \<noteq> None"
  shows "is_valid v tx inputs outputs \<noteq> Inl e"
proof (cases "is_valid_rows v tx inputs")
  case (Inl e')
  with is_valid_rows_no_error[OF known] show ?thesis by blast
next
  case (Inr p)
  obtain ok v1 where p: "p = (ok, v1)" by (cases p)
  show ?thesis
  proof (cases ok)
    case False
    with Inr p show ?thesis by (simp add: is_valid_def)
  next
    case True
    with Inr p have r: "is_valid_rows v tx inputs = Inr (True, v1)" by simp
    from is_valid_rows_True[OF r] have "set (map i_out_id inputs) \<subseteq> utxo v" by auto
    from tot_input_loop_no_error[OF known this]
    have "tot_input_loop v (map i_out_id inputs) 0 [] \<noteq> Inl e" .
    then show ?thesis
      by (auto simp: is_valid_def r split: sum.splits prod.splits option.splits)
  qed
qed

section \<open>The unspent outputs along a run\<close>

lemma pre_pass_frame:
  "utxo (pre_pass v) = utxo v"
  "tx_df (pre_pass v) = filter (\<lambda>r. \<not> underpaid v (t_id r)) (tx_df v)"
  "in_df (pre_pass v) = filter (\<lambda>r. \<not> underpaid v (i_tx_id r)) (in_df v)"
  "out_df (pre_pass v) = filter (\<lambda>r. \<not> underpaid v (o_tx_id r)) (out_df v)"
  "all_rejected (pre_pass v) = all_rejected v @ sorted_list_of_set {t. underpaid v t}"
  "n_invalid (pre_pass v) = n_invalid v + int (card {t. underpaid v t})"
  by (subst pre_pass_eq, simp add: all_rejected_def)+


lemma replay_main_pass:
  "replay v = Inr v' \<longleftrightarrow> main_pass (pre_pass v) (map t_id (tx_df (pre_pass v))) = Inr v'"
  by (simp add: replay_def Let_def)

lemma history_events: "history v = events (pre_pass v) (map t_id (tx_df (pre_pass v)))"
  by (simp add: history_def Let_def)

lemma main_pass_live_fresh:
  assumes "main_pass v txs = Inr v'" and "utxo v = {}"
  shows "x \<in> utxo v' \<longleftrightarrow> live x (events v txs)"
  using main_pass_live[OF assms(1), of x] assms(2) by simp

text \<open>
  C1, as amended. In a run that starts with an empty \<open>utxo\<close> set, at every point of the main
  pass (after any prefix of the id column) an id is in \<open>utxo\<close> exactly when it is live: some
  transaction accepted so far, coinbase or transfer, produced it, and no transaction accepted
  later consumed it. So this holds when the pass ends, and every id of the final set is an output
  id of an accepted transaction. When moreover no transaction id and no output id occurs twice in
  the relations, the final set is the set of all ids ever inserted minus the set of all ids ever
  removed.
\<close>

theorem utxo_invariant:
  assumes fresh: "utxo v = {}" and run: "replay v = Inr v'"
  shows "(\<forall>pre post. map t_id (tx_df (pre_pass v)) = pre @ post \<longrightarrow>
            (\<exists>vm. main_pass (pre_pass v) pre = Inr vm
                 \<and> utxo vm = {x. live x (events (pre_pass v) pre)}))
       \<and> utxo v' = {x. live x (history v)}
       \<and> (\<forall>x\<in>utxo v'. \<exists>e\<in>set (history v). accepted e \<and> x \<in> inserted e)
       \<and> (distinct (map t_id (tx_df v)) \<and> distinct (map o_id (out_df v)) \<longrightarrow>
            utxo v' = \<Union>(inserted ` set (history v)) - \<Union>(removed ` set (history v)))"
proof -
  let ?v0 = "pre_pass v" and ?txs = "map t_id (tx_df (pre_pass v))"
  have f0: "utxo ?v0 = {}" using fresh by (simp add: pre_pass_frame)
  have r0: "main_pass ?v0 ?txs = Inr v'" using run by (simp add: replay_main_pass)
  have 1: "\<exists>vm. main_pass ?v0 pre = Inr vm \<and> utxo vm = {x. live x (events ?v0 pre)}"
    if "?txs = pre @ post" for pre post
  proof -
    from r0 that obtain vm where vm: "main_pass ?v0 pre = Inr vm"
      by (auto simp: main_pass_append)
    from main_pass_live_fresh[OF vm f0] have "utxo vm = {x. live x (events ?v0 pre)}" by blast
    with vm show ?thesis by blast
  qed
  have 2: "utxo v' = {x. live x (history v)}"
    using main_pass_live_fresh[OF r0 f0] by (auto simp: history_events)
  have 3: "\<forall>x\<in>utxo v'. \<exists>e\<in>set (history v). accepted e \<and> x \<in> inserted e"
    unfolding 2 using live_inserted by blast
  have 4: "utxo v' = \<Union>(inserted ` set (history v)) - \<Union>(removed ` set (history v))"
    if d: "distinct (map t_id (tx_df v)) \<and> distinct (map o_id (out_df v))"
  proof -
    have dt: "distinct ?txs" using d by (simp add: pre_pass_frame distinct_map_filter)
    have d0: "distinct (map o_id (out_df ?v0))" using d by (simp add: pre_pass_frame distinct_map_filter)
    from main_pass_conservation[OF r0 dt d0, of "{}" "{}"] f0 show ?thesis
      by (simp add: history_events)
  qed
  from 1 2 3 4 show ?thesis by blast
qed

lemma demo_pre_pass:
  "pre_pass demo = demo\<lparr>n_invalid := 1, invalid_coinbase := [4],
      tx_df := [\<lparr>t_id = 1, t_block_id = 0\<rparr>, \<lparr>t_id = 2, t_block_id = 1\<rparr>, \<lparr>t_id = 3, t_block_id = 1\<rparr>],
      in_df := [\<lparr>i_id = 0, i_tx_id = 1, i_sig_id = 0, i_out_id = - 1\<rparr>,
                \<lparr>i_id = 1, i_tx_id = 2, i_sig_id = 5, i_out_id = 10\<rparr>,
                \<lparr>i_id = 2, i_tx_id = 3, i_sig_id = 6, i_out_id = 99\<rparr>],
      out_df := [\<lparr>o_id = 10, o_tx_id = 1, o_pk_id = 5, o_value = 5000000000\<rparr>,
                 \<lparr>o_id = 11, o_tx_id = 2, o_pk_id = 6, o_value = 3000000000\<rparr>,
                 \<lparr>o_id = 12, o_tx_id = 2, o_pk_id = 7, o_value = 1000000000\<rparr>,
                 \<lparr>o_id = 13, o_tx_id = 3, o_pk_id = 8, o_value = 5\<rparr>]\<rparr>"
  by (simp add: demo_def demo_txs_def demo_ins_def demo_outs_def run_simps)

lemma demo_replay: "replay demo = Inr demo_final"
  by (simp add: demo_final_def demo_def demo_txs_def demo_ins_def demo_outs_def run_simps insert_commute)

lemma demo_history:
  "history demo = [Coinbase 1 [10], Transfer 2 [10] [11, 12], Dropped 3]"
  by (simp add: history_def event_of_def is_coinbase_def demo_def demo_txs_def demo_ins_def
      demo_outs_def run_simps)

theorem utxo_invariant_witness:
  "replay demo = Inr demo_final
   \<and> history demo = [Coinbase 1 [10], Transfer 2 [10] [11, 12], Dropped 3]
   \<and> utxo demo_final = {10, 11, 12} - {10}
   \<and> live 11 (history demo) \<and> \<not> live 10 (history demo)"
proof -
  have fresh: "utxo demo = {}" by (simp add: demo_def run_simps)
  have d: "distinct (map t_id (tx_df demo)) \<and> distinct (map o_id (out_df demo))"
    by (simp add: demo_def demo_txs_def demo_outs_def run_simps)
  from utxo_invariant[OF fresh demo_replay] d
  have "utxo demo_final = \<Union>(inserted ` set (history demo)) - \<Union>(removed ` set (history demo))"
    by blast
  then show ?thesis
    by (simp add: demo_replay demo_history Un_commute insert_commute)
qed

text \<open>
  C1, as stated, fails on a ledger in which two output rows share the id 10: the id is inserted,
  removed and inserted again, so it is in the final set although it is among the removed ids.
\<close>

theorem reused_id_counterexample:
  "map_sum id utxo (replay reused_id_demo) = Inr {10, 11}
   \<and> history reused_id_demo = [Coinbase 1 [10], Transfer 2 [10] [11], Coinbase 3 [10]]
   \<and> \<Union>(inserted ` set (history reused_id_demo)) - \<Union>(removed ` set (history reused_id_demo)) = {11}"
proof -
  have h: "history reused_id_demo = [Coinbase 1 [10], Transfer 2 [10] [11], Coinbase 3 [10]]"
    by (simp add: history_def event_of_def is_coinbase_def reused_id_demo_def run_simps)
  have "map_sum id utxo (replay reused_id_demo) = Inr {10, 11}"
    by (simp add: reused_id_demo_def run_simps insert_commute)
  then show ?thesis unfolding h by auto
qed

section \<open>Lookups of spent outputs\<close>

lemma distinct_map_filter_one:
  "distinct (map f xs) \<Longrightarrow> r \<in> set xs \<Longrightarrow> length (filter (\<lambda>r'. f r' = f r) xs) = 1"
proof (induction xs)
  case Nil
  then show ?case by simp
next
  case (Cons a xs)
  show ?case
  proof (cases "f a = f r")
    case True
    with Cons.prems have "\<forall>r'\<in>set xs. f r' \<noteq> f r" by (auto simp: image_iff)
    then have "filter (\<lambda>r'. f r' = f r) xs = []" by (simp add: filter_empty_conv)
    with True show ?thesis by simp
  next
    case False
    with Cons show ?thesis by auto
  qed
qed

lemma process_tx_error_inputs:
  assumes known: "\<forall>x\<in>utxo v. referenced v x \<noteq> None" and err: "process_tx v tx = Inl e"
  shows "inputs_of v tx = []"
proof (rule ccontr)
  assume "inputs_of v tx \<noteq> []"
  then obtain first rest where ins: "inputs_of v tx = first # rest" by (cases "inputs_of v tx") auto
  have ne: "is_valid v tx (inputs_of v tx) (outputs_of v tx) \<noteq> Inl e'" for e'
    by (rule is_valid_no_error[OF known])
  then obtain ok w where iv: "is_valid v tx (inputs_of v tx) (outputs_of v tx) = Inr (ok, w)"
    by (cases "is_valid v tx (inputs_of v tx) (outputs_of v tx)") auto
  show False
  proof (cases ok)
    case True
    with iv have acc: "is_valid v tx (inputs_of v tx) (outputs_of v tx) = Inr (True, w)" by simp
    note t = is_valid_True[OF acc]
    have "remove_all (utxo v) (map i_out_id (inputs_of v tx)) =
            Inr (utxo v - set (map i_out_id (inputs_of v tx)))"
      using t by (intro remove_all_ok) auto
    with err[unfolded process_tx_step[OF ins]] acc t(1) show False
      by (simp split: if_splits)
  next
    case False
    with err[unfolded process_tx_step[OF ins]] iv show False by (simp split: if_splits)
  qed
qed

text \<open>
  C10, as amended. In a run that starts with an empty \<open>utxo\<close> set on a ledger with exact ids
  and a \<open>tx_df\<close> without duplicate ids, at every point of the main pass every id in \<open>utxo\<close>
  is the id of a row of
  \<open>out_df\<close>; so the lookups \<open>.iloc[0]\<close> of \<open>is_valid\<close> are defined once the membership check
  has passed, \<open>is_valid\<close> never raises, and the only exception left to a turn of the loop is the
  one of a transaction without input rows. The row is the only one with its id when no output id
  occurs twice in \<open>out_df\<close>.
\<close>

theorem output_lookups_defined:
  assumes fresh: "utxo v = {}" and ids: "exact_ids v" and dist: "distinct (map t_id (tx_df v))"
    and split: "map t_id (tx_df (pre_pass v)) = pre @ post"
    and reach: "main_pass (pre_pass v) pre = Inr vm"
  shows "(\<forall>x\<in>utxo vm. rows_with_id vm x \<noteq> [])
       \<and> (\<forall>x\<in>utxo vm. referenced vm x \<noteq> None)
       \<and> (\<forall>tx inputs outputs e. is_valid vm tx inputs outputs \<noteq> Inl e)
       \<and> (\<forall>tx e. process_tx vm tx = Inl e \<longrightarrow> inputs_of vm tx = [])
       \<and> (distinct (map o_id (out_df v)) \<longrightarrow> (\<forall>x\<in>utxo vm. length (rows_with_id vm x) = 1))"
proof -
  let ?v0 = "pre_pass v"
  have d: "distinct (pre @ post)"
    using dist split[symmetric] by (simp add: pre_pass_frame distinct_map_filter)
  have "backed ?v0 (pre @ post)" using fresh by (simp add: backed_def pre_pass_frame)
  from main_pass_backed[OF reach d this] have b: "backed vm post" .
  then have known: "\<forall>x\<in>utxo vm. referenced vm x \<noteq> None"
    using backed_referenced by blast
  have rows: "\<forall>x\<in>utxo vm. rows_with_id vm x \<noteq> []"
    using b by (auto simp: backed_def rows_with_id_def filter_empty_conv)
  have one: "\<forall>x\<in>utxo vm. length (rows_with_id vm x) = 1" if "distinct (map o_id (out_df v))"
  proof
    fix x assume x: "x \<in> utxo vm"
    from that have "distinct (map o_id (out_df ?v0))" by (simp add: pre_pass_frame distinct_map_filter)
    from main_pass_distinct_out[OF reach this] have dm: "distinct (map o_id (out_df vm))" .
    from b x obtain r where r: "r \<in> set (out_df vm)" "x = o_id r" by (auto simp: backed_def)
    from distinct_map_filter_one[OF dm r(1)] r(2) show "length (rows_with_id vm x) = 1"
      by (simp add: rows_with_id_def)
  qed
  from rows known one is_valid_no_error[OF known] process_tx_error_inputs[OF known]
  show ?thesis by blast
qed

lemma demo_main_pass_1: "main_pass (pre_pass demo) [1] = Inr demo_after_1"
  unfolding demo_after_1_def demo_pre_pass
  by (simp add: demo_def run_simps)

theorem output_lookups_defined_witness:
  "main_pass (pre_pass demo) [1] = Inr demo_after_1
   \<and> utxo demo_after_1 = {10}
   \<and> length (rows_with_id demo_after_1 10) = 1
   \<and> is_valid demo_after_1 2 (inputs_of demo_after_1 2) (outputs_of demo_after_1 2) = Inr (True, demo_after_1)"
proof -
  have fresh: "utxo demo = {}" by (simp add: demo_def run_simps)
  have dist: "distinct (map t_id (tx_df demo))" by (simp add: demo_def demo_txs_def run_simps)
  have split: "map t_id (tx_df (pre_pass demo)) = [1] @ [2, 3]" by (simp add: demo_pre_pass)
  have dout: "distinct (map o_id (out_df demo))" by (simp add: demo_def demo_outs_def run_simps)
  have u: "utxo demo_after_1 = {10}" by (simp add: demo_after_1_def)
  have ids: "exact_ids demo" by (simp add: demo_def demo_txs_def demo_ins_def demo_outs_def run_simps)
  from output_lookups_defined[OF fresh ids dist split demo_main_pass_1] dout u
  have "length (rows_with_id demo_after_1 10) = 1" by simp
  moreover have "is_valid demo_after_1 2 (inputs_of demo_after_1 2) (outputs_of demo_after_1 2)
      = Inr (True, demo_after_1)"
    unfolding demo_after_1_def demo_pre_pass by (simp add: demo_def run_simps)
  ultimately show ?thesis using u demo_main_pass_1 by simp
qed

text \<open>
  C10, as stated, fails on the uniqueness of the row: after transaction 1, id 10 is unspent and
  two rows of \<open>out_df\<close> have this id, those of transactions 1 and 3.
\<close>

theorem shared_id_counterexample:
  "main_pass (pre_pass reused_id_demo) [1] = Inr reused_after_1
   \<and> utxo reused_after_1 = {10}
   \<and> map o_tx_id (rows_with_id reused_after_1 10) = [1, 3]"
  by (simp add: reused_after_1_def reused_id_demo_def rows_with_id_def run_simps)

section \<open>Rejected transactions\<close>






section \<open>Coinbase transactions that own output rows\<close>

text \<open>
  What the pre-pass does ensure: a transaction that the main pass takes as a coinbase at some
  point of a run, and that has at least one output row in the relations given to the validator,
  has output values whose 64-bit sum is at least the mining reward; its turn of the loop does not call
  \<open>is_valid\<close> and adds the ids of all its output rows to \<open>utxo\<close>.
\<close>

lemma coinbase_floor:
  assumes reach: "main_pass (pre_pass v) pre = Inr vm"
    and cb: "is_coinbase vm tx"
    and outs: "outputs_of v tx \<noteq> []"
  shows "MINING_REWARD \<le> wrap64 (output_value (outputs_of vm tx))
       \<and> process_tx vm tx = Inr (vm\<lparr>utxo := utxo vm \<union> set (map o_id (outputs_of vm tx))\<rparr>)"
proof -
  let ?D = "dropped_ids (events (pre_pass v) pre)"
  note rel = main_pass_relations[OF reach]
  have indf: "in_df vm = filter (\<lambda>r. i_tx_id r \<notin> ?D) (filter (\<lambda>r. \<not> underpaid v (i_tx_id r)) (in_df v))"
    and outdf: "out_df vm = filter (\<lambda>r. o_tx_id r \<notin> ?D) (filter (\<lambda>r. \<not> underpaid v (o_tx_id r)) (out_df v))"
    using rel by (simp_all add: pre_pass_frame)
  from cb obtain first rest where ins: "inputs_of vm tx = first # rest"
    and first: "i_sig_id first = 0" "i_out_id first = - 1"
    by (auto simp: is_coinbase_def split: list.splits)
  from ins have "first \<in> set (inputs_of vm tx)" by simp
  then have f: "first \<in> set (in_df v)" "i_tx_id first = tx" "\<not> underpaid v tx" "tx \<notin> ?D"
    unfolding inputs_of_def indf by auto
  from f(1,2) first(1) have "tx \<in> set (coinbase_tx v)" by (force simp: coinbase_tx_def)
  with f(3) outs have floor: "MINING_REWARD \<le> wrap64 (output_value (outputs_of v tx))"
    by (simp add: underpaid_def)
  have same: "outputs_of vm tx = outputs_of v tx"
    unfolding outputs_of_def outdf using f(3,4) by (auto intro: filter_cong)
  have "process_tx vm tx = Inr (vm\<lparr>utxo := utxo vm \<union> set (map o_id (outputs_of vm tx))\<rparr>)"
    unfolding process_tx_step[OF ins] using first by (simp add: add_all_eq)
  with floor same show ?thesis by simp
qed

section \<open>Removing spent outputs\<close>

text \<open>
  On a ledger with exact ids, when \<open>is_valid\<close> returns True for a transfer transaction, the ids
  its inputs spend are pairwise different and each is a member of \<open>utxo\<close> at the moment the loop
  \<open>for out_id in inputs['out_id']: self.utxo.remove(out_id)\<close> reaches it; the loop ends without
  KeyError, and the turn of the main loop leaves \<open>utxo\<close> without exactly these ids and with the
  ids of the output rows of the transaction. The source does not ensure this on every frame:
  \<open>is_valid\<close> tests \<open>row[3]\<close> of \<open>inputs.values\<close>, which is a float64 when the columns of
  \<open>in_df\<close> mix integer dtypes, while the removal loop reads the column \<open>out_id\<close> itself, so an
  id above \<open>2^53\<close> can pass the membership test as a neighbouring id that is unspent and then
  make \<open>utxo.remove\<close> raise KeyError.
\<close>

lemma accept_removes_each_once:
  assumes ids: "exact_ids v"
    and ins: "inputs_of v tx = first # rest"
    and nc: "\<not> (i_sig_id first = 0 \<and> i_out_id first = - 1)"
    and acc: "is_valid v tx (inputs_of v tx) (outputs_of v tx) = Inr (True, v1)"
  shows "distinct (map i_out_id (inputs_of v tx))
    \<and> (\<forall>k<length (inputs_of v tx).
          i_out_id (inputs_of v tx ! k) \<in> utxo v - set (take k (map i_out_id (inputs_of v tx))))
    \<and> remove_all (utxo v) (map i_out_id (inputs_of v tx)) =
          Inr (utxo v - set (map i_out_id (inputs_of v tx)))
    \<and> process_tx v tx =
          Inr (v\<lparr>utxo := utxo v - set (map i_out_id (inputs_of v tx))
                             \<union> set (map o_id (outputs_of v tx))\<rparr>)"
proof -
  let ?ids = "map i_out_id (inputs_of v tx)"
  from is_valid_True[OF acc] have eq: "v1 = v" and sub: "set ?ids \<subseteq> utxo v"
    and dist: "distinct ?ids" by auto
  have rm: "remove_all (utxo v) ?ids = Inr (utxo v - set ?ids)"
    by (rule remove_all_ok[OF sub dist])
  have each: "i_out_id (inputs_of v tx ! k) \<in> utxo v - set (take k ?ids)"
    if k: "k < length (inputs_of v tx)" for k
  proof -
    have "?ids ! k \<notin> set (take k ?ids)" using take_map_nth_distinct[OF dist] k by simp
    moreover have "?ids ! k \<in> utxo v" using sub k by (simp add: subset_iff)
    ultimately show ?thesis using k by simp
  qed
  have "process_tx v tx = Inr (v\<lparr>utxo := utxo v - set ?ids \<union> set (map o_id (outputs_of v tx))\<rparr>)"
    unfolding process_tx_step[OF ins] using nc eq rm
    by (auto simp add: acc add_all_eq simp del: set_map)
  with dist each rm show ?thesis by blast
qed

lemma replay_no_KeyError: "replay v \<noteq> Inl KeyError"
  by (simp add: replay_def Let_def main_pass_no_KeyError)

end
